theory Spec2Isabelle
  imports Complex_Main "HOL-Library.Multiset"
begin

section \<open>Python values and exceptions\<close>

text \<open>
  The attribute values that travel through the scheduler are opaque to it; a small
  universe of Python values is enough to state what is copied and what is defaulted.
\<close>

datatype pyval =
    PyNone
  | PyBool bool
  | PyInt int
  | PyStr string
  | PyTuple "pyval list"
  | PyList "pyval list"
  | PyDict "(pyval \<times> pyval) list"



text \<open>The exceptions that the modelled code can raise or let through.\<close>

datatype error =
    Empty
  | AssertionError
  | AttributeError string
  | TypeError
  | ValueError
  | ZeroDivisionError
  | PoolSubmissionFailure

text \<open>
  Iterating a value, as tuple unpacking does: tuples and lists give their items, a
  string its characters, a dict its keys; anything else is not iterable.
\<close>

fun py_iter :: "pyval \<Rightarrow> error + pyval list" where
  "py_iter (PyTuple xs) = Inr xs"
| "py_iter (PyList xs) = Inr xs"
| "py_iter (PyStr s) = Inr (map (\<lambda>c. PyStr [c]) s)"
| "py_iter (PyDict kvs) = Inr (map fst kvs)"
| "py_iter PyNone = Inl TypeError"
| "py_iter (PyBool b) = Inl TypeError"
| "py_iter (PyInt i) = Inl TypeError"

text \<open>\<^verbatim>\<open>a, b, c = v\<close>: exactly three items, or ValueError.\<close>

definition unpack3 :: "pyval \<Rightarrow> error + (pyval \<times> pyval \<times> pyval)" where
  "unpack3 v =
     (case py_iter v of
        Inl e \<Rightarrow> Inl e
      | Inr [a, b, c] \<Rightarrow> Inr (a, b, c)
      | Inr _ \<Rightarrow> Inl ValueError)"


section \<open>The pending buffer: \<^verbatim>\<open>queue.Queue\<close> and \<^verbatim>\<open>consume_queue\<close>\<close>

text \<open>An unbounded FIFO queue is the list of its items, oldest first.\<close>

definition put :: "'a list \<Rightarrow> 'a \<Rightarrow> 'a list" where
  "put q x = q @ [x]"

definition qsize :: "'a list \<Rightarrow> nat" where
  "qsize q = length q"

text \<open>\<^verbatim>\<open>get_nowait\<close> removes the oldest item, or raises \<^verbatim>\<open>Empty\<close>.\<close>

definition get_nowait :: "'a list \<Rightarrow> error + ('a \<times> 'a list)" where
  "get_nowait q = (case q of [] \<Rightarrow> Inl Empty | x # q' \<Rightarrow> Inr (x, q'))"

text \<open>
  \<^verbatim>\<open>list(consume_queue(queue))\<close>: the \<^verbatim>\<open>while 1\<close> loop yields what
  \<^verbatim>\<open>get_nowait\<close> returns until it raises \<^verbatim>\<open>Empty\<close>. The result is the
  list of yielded items with the queue that is left.
\<close>

function consume_queue :: "'a list \<Rightarrow> 'a list \<times> 'a list" where
  "consume_queue q =
     (case get_nowait q of
        Inl e \<Rightarrow> ([], q)
      | Inr (x, q') \<Rightarrow> (case consume_queue q' of (xs, q'') \<Rightarrow> (x # xs, q'')))"
  by pat_completeness auto
termination
  by (relation "measure length") (auto simp: get_nowait_def split: list.splits)

declare consume_queue.simps [simp del]

section \<open>Requests and their snapshots\<close>

text \<open>
  The task object a request refers to. Celery binds \<^verbatim>\<open>acks_late\<close> to a boolean
  (the task option or the \<^verbatim>\<open>task_acks_late\<close> setting); \<^verbatim>\<open>flush\<close> uses it as
  an index into a pair of lists.
\<close>

record task =
  task_name :: string
  acks_late :: bool

text \<open>
  What a decoded message gives the request class: the attributes that
  \<^verbatim>\<open>from_request\<close> reads later. \<open>None\<close> stands for an attribute that the object
  does not have (reading it raises AttributeError); \<open>Some PyNone\<close> is an attribute
  whose value is Python's \<^verbatim>\<open>None\<close>.
\<close>

record message =
  req_id :: "pyval option"
  req_name :: "pyval option"
  req_payload :: "pyval option"
  req_delivery_info :: "pyval option"
  req_hostname :: "pyval option"
  req_ignore_result :: "pyval option"
  req_reply_to :: "pyval option"
  req_correlation_id :: "pyval option"

text \<open>The live request: the message's attributes and the task it was built for.\<close>

record request = message +
  task :: task

text \<open>
  \<^verbatim>\<open>Req(message, ..., task=task, ...)\<close>: the request that the class made by
  Celery's \<^verbatim>\<open>create_request_cls\<close> builds when it does not raise; it keeps the task
  it is given. Where the construction raises is a parameter of the handler below.
\<close>

definition Req :: "task \<Rightarrow> message \<Rightarrow> request" where
  "Req t m =
     \<lparr> req_id = req_id m, req_name = req_name m, req_payload = req_payload m,
       req_delivery_info = req_delivery_info m, req_hostname = req_hostname m,
       req_ignore_result = req_ignore_result m, req_reply_to = req_reply_to m,
       req_correlation_id = req_correlation_id m, task = t \<rparr>"

text \<open>\<^verbatim>\<open>class SimpleRequest\<close>: the picklable snapshot handed to the batch task.\<close>

record SimpleRequest =
  id_f :: pyval
  name :: pyval
  args :: pyval
  kwargs :: pyval
  delivery_info :: pyval
  hostname :: pyval
  ignore_result :: pyval
  reply_to :: pyval
  correlation_id :: pyval

text \<open>\<^verbatim>\<open>SimpleRequest.__init__\<close> stores its nine arguments.\<close>

definition SimpleRequest_init ::
  "pyval \<Rightarrow> pyval \<Rightarrow> pyval \<Rightarrow> pyval \<Rightarrow> pyval \<Rightarrow> pyval \<Rightarrow> pyval \<Rightarrow> pyval \<Rightarrow> pyval \<Rightarrow> SimpleRequest" where
  "SimpleRequest_init id_v name_v args_v kwargs_v info_v host_v ignore_v reply_v corr_v =
     \<lparr> id_f = id_v, name = name_v, args = args_v, kwargs = kwargs_v,
       delivery_info = info_v, hostname = host_v, ignore_result = ignore_v,
       reply_to = reply_v, correlation_id = corr_v \<rparr>"

text \<open>Attribute access \<^verbatim>\<open>request.attr\<close> and \<^verbatim>\<open>getattr(request, attr, default)\<close>.\<close>

definition attr :: "string \<Rightarrow> pyval option \<Rightarrow> error + pyval" where
  "attr nm field = (case field of None \<Rightarrow> Inl (AttributeError nm) | Some v \<Rightarrow> Inr v)"

definition getattr_default :: "pyval option \<Rightarrow> pyval \<Rightarrow> pyval" where
  "getattr_default field dflt = (case field of None \<Rightarrow> dflt | Some v \<Rightarrow> v)"

text \<open>
  \<^verbatim>\<open>SimpleRequest.from_request\<close>, in the source's order of evaluation: the payload
  is read and unpacked first, then \<^verbatim>\<open>ignore_result\<close> with its default, then the
  constructor's arguments from left to right. The first failure is the exception raised.
\<close>

definition from_request :: "request \<Rightarrow> error + SimpleRequest" where
  "from_request request =
     (case attr ''_payload'' (req_payload request) of Inl e \<Rightarrow> Inl e | Inr payload \<Rightarrow>
      case unpack3 payload of Inl e \<Rightarrow> Inl e | Inr (args_v, kwargs_v, embed_v) \<Rightarrow>
      let ignore_v = getattr_default (req_ignore_result request) (PyBool False) in
      case attr ''id'' (req_id request) of Inl e \<Rightarrow> Inl e | Inr id_v \<Rightarrow>
      case attr ''name'' (req_name request) of Inl e \<Rightarrow> Inl e | Inr name_v \<Rightarrow>
      case attr ''delivery_info'' (req_delivery_info request) of Inl e \<Rightarrow> Inl e | Inr info_v \<Rightarrow>
      case attr ''hostname'' (req_hostname request) of Inl e \<Rightarrow> Inl e | Inr host_v \<Rightarrow>
      case attr ''reply_to'' (req_reply_to request) of Inl e \<Rightarrow> Inl e | Inr reply_v \<Rightarrow>
      case attr ''correlation_id'' (req_correlation_id request) of Inl e \<Rightarrow> Inl e | Inr corr_v \<Rightarrow>
      Inr (SimpleRequest_init id_v name_v args_v kwargs_v info_v host_v ignore_v reply_v corr_v))"

text \<open>
  \<^verbatim>\<open>[SimpleRequest.from_request(r) for r in requests]\<close>: the comprehension stops at
  the first request whose snapshot raises.
\<close>

fun from_requests :: "request list \<Rightarrow> error + SimpleRequest list" where
  "from_requests [] = Inr []"
| "from_requests (r # rs) =
     (case from_request r of
        Inl e \<Rightarrow> Inl e
      | Inr s \<Rightarrow> (case from_requests rs of Inl e \<Rightarrow> Inl e | Inr ss \<Rightarrow> Inr (s # ss)))"

section \<open>The scheduler state and its collaborators\<close>

text \<open>
  The two closures of \<^verbatim>\<open>flush\<close>, each with the list it captures, and Celery's
  \<^verbatim>\<open>noop\<close>.
\<close>

datatype callback =
    on_accepted "request list"
  | on_return "request list"
  | noop

text \<open>One call of \<^verbatim>\<open>pool.apply_async\<close>: the snapshots and the two callbacks.\<close>

record submission =
  sub_requests :: "SimpleRequest list"
  accept_callback :: callback
  callback :: callback

text \<open>The executor pool is external: it takes a submission, or refuses it.\<close>

datatype pool = Running | ShutDown

text \<open>The three \<^verbatim>\<open>logger.debug\<close> lines of \<^verbatim>\<open>_do_flush\<close>.\<close>

datatype log_msg =
    Wake_up_to_flush_buffer
  | Buffer_complete nat
  | Canceling_timer

text \<open>
  The attributes of the \<^verbatim>\<open>Batches\<close> instance (\<open>flush_every\<close>, \<open>flush_interval\<close>,
  \<open>buffer\<close>, \<open>count_iter\<close>: the next value of \<^verbatim>\<open>count(1)\<close>, \<open>tref\<close>, \<open>pool\<close>)
  together with what its collaborators hold: the timer service's live entries and its
  next fresh handle, the submissions the pool has taken, the acknowledgments made and
  the debug log.
\<close>

record world =
  flush_every :: int
  flush_interval :: real
  buffer :: "request list"
  count_iter :: int
  tref :: "nat option"
  pool :: "pool option"
  timer_entries :: "(nat \<times> real) list"
  next_entry :: nat
  submitted :: "submission list"
  acked :: "request list"
  debug_log :: "log_msg list"

text \<open>\<^verbatim>\<open>Batches.__init__\<close>, with the class attributes as given.\<close>

definition Batches_init :: "int \<Rightarrow> real \<Rightarrow> world" where
  "Batches_init every interval =
     \<lparr> flush_every = every, flush_interval = interval, buffer = [], count_iter = 1,
       tref = None, pool = None, timer_entries = [], next_entry = 0, submitted = [],
       acked = [], debug_log = [] \<rparr>"

text \<open>
  The part of \<^verbatim>\<open>Strategy\<close> that changes the instance: it stores the consumer's
  pool. The handler it returns is \<open>task_message_handler\<close> below.
\<close>

definition Strategy :: "world \<Rightarrow> pool \<Rightarrow> world" where
  "Strategy self consumer_pool = self\<lparr>pool := Some consumer_pool\<rparr>"

definition debug :: "log_msg \<Rightarrow> world \<Rightarrow> world" where
  "debug m w = w\<lparr>debug_log := debug_log w @ [m]\<rparr>"

text \<open>
  The timer service: \<^verbatim>\<open>call_repeatedly\<close> registers an entry under a fresh handle,
  \<^verbatim>\<open>cancel\<close> removes the entry of a handle.
\<close>

definition call_repeatedly :: "real \<Rightarrow> world \<Rightarrow> nat \<times> world" where
  "call_repeatedly secs w =
     (next_entry w,
      w\<lparr>timer_entries := timer_entries w @ [(next_entry w, secs)],
        next_entry := Suc (next_entry w)\<rparr>)"

definition cancel :: "nat \<Rightarrow> world \<Rightarrow> world" where
  "cancel h w = w\<lparr>timer_entries := filter (\<lambda>e. fst e \<noteq> h) (timer_entries w)\<rparr>"

text \<open>\<^verbatim>\<open>req.acknowledge()\<close>, and a callback run by the pool.\<close>

definition acknowledge :: "world \<Rightarrow> request \<Rightarrow> world" where
  "acknowledge w r = w\<lparr>acked := acked w @ [r]\<rparr>"

fun call :: "callback \<Rightarrow> world \<Rightarrow> world" where
  "call (on_accepted reqs) w = foldl acknowledge w reqs"
| "call (on_return reqs) w = foldl acknowledge w reqs"
| "call noop w = w"

text \<open>
  \<^verbatim>\<open>self._pool.apply_async(...)\<close>: without a pool the attribute lookup fails, a
  pool that is shut down refuses, a running pool records the submission.
\<close>

definition apply_async :: "world \<Rightarrow> submission \<Rightarrow> error option \<times> world" where
  "apply_async self sub =
     (case pool self of
        None \<Rightarrow> (Some (AttributeError ''apply_async''), self)
      | Some ShutDown \<Rightarrow> (Some PoolSubmissionFailure, self)
      | Some Running \<Rightarrow> (None, self\<lparr>submitted := submitted self @ [sub]\<rparr>))"

section \<open>\<^verbatim>\<open>Batches.flush\<close>\<close>

text \<open>\<^verbatim>\<open>acks_late[flag].append(r)\<close> on the pair \<^verbatim>\<open>acks_late = [], []\<close>.\<close>

definition append_at :: "'a list \<times> 'a list \<Rightarrow> bool \<Rightarrow> 'a \<Rightarrow> 'a list \<times> 'a list" where
  "append_at ls flag r =
     (if flag then (fst ls, snd ls @ [r]) else (fst ls @ [r], snd ls))"

definition acks_late_lists :: "request list \<Rightarrow> request list \<times> request list" where
  "acks_late_lists requests =
     foldl (\<lambda>ls r. append_at ls (acks_late (task r)) r) ([], []) requests"

text \<open>
  \<^verbatim>\<open>flush\<close>: partition, assert, snapshot, submit. \<open>fst\<close> of the pair of lists is
  \<^verbatim>\<open>acks_late[False]\<close>, \<open>snd\<close> is \<^verbatim>\<open>acks_late[True]\<close>. The completion callback
  \<^verbatim>\<open>acks_late[True] and on_return or noop\<close> is \<open>on_return\<close> when that list is not
  empty and \<open>noop\<close> otherwise. The result is the exception raised, if any, and the world.
\<close>

definition flush :: "world \<Rightarrow> request list \<Rightarrow> error option \<times> world" where
  "flush self requests =
     (let ls = acks_late_lists requests in
      if \<not> (requests \<noteq> [] \<and> (snd ls \<noteq> [] \<or> fst ls \<noteq> [])) then (Some AssertionError, self)
      else case from_requests requests of
        Inl e \<Rightarrow> (Some e, self)
      | Inr serializable_requests \<Rightarrow>
          apply_async self
            \<lparr> sub_requests = serializable_requests,
              accept_callback = on_accepted (fst ls),
              callback = (if snd ls \<noteq> [] then on_return (snd ls) else noop) \<rparr>)"

section \<open>\<^verbatim>\<open>Batches._do_flush\<close> and the ingress handler\<close>

text \<open>
  The tail of \<^verbatim>\<open>_do_flush\<close>: \<^verbatim>\<open>if not requests\<close>, where \<open>requests\<close> is
  \<^verbatim>\<open>None\<close> or the drained list.
\<close>

definition cancel_if_idle :: "request list option \<Rightarrow> world \<Rightarrow> world" where
  "cancel_if_idle requests self =
     (if requests = None \<or> requests = Some [] then
        let w1 = debug Canceling_timer self;
            w2 = (case tref w1 of Some h \<Rightarrow> cancel h w1 | None \<Rightarrow> w1)
        in w2\<lparr>tref := None\<rparr>
      else self)"

text \<open>
  \<^verbatim>\<open>_do_flush\<close>. An exception of \<^verbatim>\<open>flush\<close> leaves the function at once: the
  buffer stays drained and the timer handle is not touched.
\<close>

definition do_flush :: "world \<Rightarrow> error option \<times> world" where
  "do_flush self =
     (let w1 = debug Wake_up_to_flush_buffer self in
      if qsize (buffer w1) \<noteq> 0 then
        (case consume_queue (buffer w1) of (requests, q') \<Rightarrow>
           let w2 = w1\<lparr>buffer := q'\<rparr> in
           if requests \<noteq> [] then
             (case flush (debug (Buffer_complete (length requests)) w2) requests of
                (Some e, w3) \<Rightarrow> (Some e, w3)
              | (None, w3) \<Rightarrow> (None, cancel_if_idle (Some requests) w3))
           else (None, cancel_if_idle (Some requests) w2))
      else (None, cancel_if_idle None w1))"

text \<open>
  \<^verbatim>\<open>task_message_handler\<close> for the task \<open>t\<close> that \<^verbatim>\<open>Strategy\<close> was called with.
  The handler first decodes the message (\<^verbatim>\<open>proto1_to_proto2\<close>) and constructs the
  request (\<^verbatim>\<open>Req(message, ...)\<close>); both are Celery's and either may raise. They are
  the parameter \<open>raises\<close>: \<open>raises msg\<close> is the exception that they raise on the
  message, or \<open>None\<close>, and then the request is \<open>Req t msg\<close>. An exception there ends
  the call before anything is put, armed or counted. Otherwise the handler puts the
  request into the buffer, arms the timer when no handle is held, takes the next count
  and flushes when it is a multiple of \<open>flush_every\<close>.
\<close>

definition task_message_handler ::
  "(message \<Rightarrow> error option) \<Rightarrow> task \<Rightarrow> world \<Rightarrow> message \<Rightarrow> error option \<times> world" where
  "task_message_handler raises t self msg =
     (case raises msg of
        Some e \<Rightarrow> (Some e, self)
      | None \<Rightarrow>
          (let request = Req t msg;
               w1 = self\<lparr>buffer := put (buffer self) request\<rparr>;
               w2 = (if tref w1 = None then
                       (case call_repeatedly (flush_interval w1) w1 of (h, w) \<Rightarrow> w\<lparr>tref := Some h\<rparr>)
                     else w1);
               n = count_iter w2;
               w3 = w2\<lparr>count_iter := n + 1\<rparr>
           in if flush_every w3 = 0 then (Some ZeroDivisionError, w3)
              else if n mod flush_every w3 = 0 then do_flush w3
              else (None, w3)))"

text \<open>
  A history of the scheduler: ingress calls and flush attempts in any order. An
  exception ends the call that raised it; the state it left is the state the next call
  sees.
\<close>

datatype event = Ingress message | Flush_attempt

fun step ::
  "(message \<Rightarrow> error option) \<Rightarrow> task \<Rightarrow> world \<Rightarrow> event \<Rightarrow> error option \<times> world" where
  "step raises t w (Ingress msg) = task_message_handler raises t w msg"
| "step raises t w Flush_attempt = do_flush w"

fun replay :: "(message \<Rightarrow> error option) \<Rightarrow> task \<Rightarrow> world \<Rightarrow> event list \<Rightarrow> world" where
  "replay raises t w [] = w"
| "replay raises t w (e # es) = replay raises t (snd (step raises t w e)) es"

text \<open>The number of ingress calls in a history.\<close>

fun is_ingress :: "event \<Rightarrow> bool" where
  "is_ingress (Ingress msg) = True"
| "is_ingress Flush_attempt = False"

definition ingress_count :: "event list \<Rightarrow> nat" where
  "ingress_count evs = length (filter is_ingress evs)"

text \<open>
  The ingress calls of a history that construct their request, and so reach the
  counter.
\<close>

fun constructs :: "(message \<Rightarrow> error option) \<Rightarrow> event \<Rightarrow> bool" where
  "constructs raises (Ingress msg) = (raises msg = None)"
| "constructs raises Flush_attempt = False"

definition counted_calls :: "(message \<Rightarrow> error option) \<Rightarrow> event list \<Rightarrow> nat" where
  "counted_calls raises evs = length (filter (constructs raises) evs)"

section \<open>\<^verbatim>\<open>Batches.apply\<close>\<close>



section \<open>Sample data\<close>

definition early_task :: task where
  "early_task = \<lparr> task_name = ''t.integration.tasks.add'', acks_late = False \<rparr>"

definition late_task :: task where
  "late_task = \<lparr> task_name = ''t.integration.tasks.cumadd'', acks_late = True \<rparr>"

text \<open>A message with every attribute, for the call \<^verbatim>\<open>add.delay(n)\<close> under the id \<open>i\<close>.\<close>

definition sample_message :: "string \<Rightarrow> int \<Rightarrow> message" where
  "sample_message i n =
     \<lparr> req_id = Some (PyStr i), req_name = Some (PyStr ''t.integration.tasks.add''),
       req_payload = Some (PyTuple [PyTuple [PyInt n], PyDict [], PyDict []]),
       req_delivery_info = Some (PyDict [(PyStr ''exchange'', PyStr ''celery'')]),
       req_hostname = Some (PyStr ''worker1''), req_ignore_result = Some (PyBool True),
       req_reply_to = Some PyNone, req_correlation_id = Some (PyStr i) \<rparr>"

text \<open>The same message without a \<^verbatim>\<open>hostname\<close> attribute.\<close>

definition malformed_message :: "string \<Rightarrow> int \<Rightarrow> message" where
  "malformed_message i n = (sample_message i n)\<lparr>req_hostname := None\<rparr>"

text \<open>A registered instance with a running pool and the class defaults of the source.\<close>

definition sample_world :: "int \<Rightarrow> world" where
  "sample_world every = Strategy (Batches_init every 30) Running"

text \<open>
  A request constructor that, as Celery's does, unpacks the payload into three items,
  and raises what the unpacking raises.
\<close>

definition unpacking_error :: "message \<Rightarrow> error option" where
  "unpacking_error m =
     (case req_payload m of
        None \<Rightarrow> Some TypeError
      | Some payload \<Rightarrow> (case unpack3 payload of Inl e \<Rightarrow> Some e | Inr items \<Rightarrow> None))"

text \<open>A message whose payload has two items only: its request cannot be constructed.\<close>

definition short_payload_message :: "string \<Rightarrow> int \<Rightarrow> message" where
  "short_payload_message i n =
     (sample_message i n)\<lparr>req_payload := Some (PyTuple [PyTuple [PyInt n], PyDict []])\<rparr>"



text \<open>
  Three requests of one batch: the first two acknowledge on acceptance, the third
  after completion.
\<close>

definition sample_batch :: "request list" where
  "sample_batch =
     [Req early_task (sample_message ''a'' 1), Req early_task (sample_message ''b'' 2),
      Req late_task (sample_message ''c'' 3)]"

section \<open>Properties used in the statements\<close>

text \<open>
  A request lacks a required attribute: one of those that \<^verbatim>\<open>from_request\<close> reads
  without a default (\<^verbatim>\<open>ignore_result\<close> alone has one).
\<close>

definition missing_required :: "request \<Rightarrow> bool" where
  "missing_required r =
     (req_payload r = None \<or> req_id r = None \<or> req_name r = None \<or>
      req_delivery_info r = None \<or> req_hostname r = None \<or> req_reply_to r = None \<or>
      req_correlation_id r = None)"

text \<open>
  The timer service holds the entry of the handle that the instance holds, and no
  other.
\<close>

definition one_entry :: "world \<Rightarrow> bool" where
  "one_entry w = (map fst (timer_entries w) = (case tref w of None \<Rightarrow> [] | Some h \<Rightarrow> [h]))"

section \<open>The pending buffer is first in, first out\<close>

lemma consume_queue_all: "consume_queue q = (q, [])"
proof (induction q)
  case Nil
  show ?case by (subst consume_queue.simps) (simp add: get_nowait_def)
next
  case (Cons x q)
  then show ?case by (subst consume_queue.simps) (simp add: get_nowait_def)
qed

lemma foldl_put: "foldl put q xs = q @ xs"
  by (induction xs arbitrary: q) (simp_all add: put_def)

text \<open>
  C4. Pushing \<open>xs\<close> into the empty buffer of a new instance and draining it once gives
  \<open>xs\<close> in the same order and leaves the buffer empty; draining an empty buffer gives
  the empty list; a second drain right after a drain gives the empty list.
\<close>

theorem drain_is_fifo:
  "consume_queue (foldl put (buffer (Batches_init every interval)) xs) = (xs, [])
   \<and> fst (consume_queue ([] :: 'a list)) = []
   \<and> fst (consume_queue (snd (consume_queue (q :: 'a list)))) = []"
  by (simp add: consume_queue_all foldl_put Batches_init_def)

section \<open>What \<^verbatim>\<open>flush\<close> computes\<close>

lemma acks_late_lists_gen:
  "foldl (\<lambda>ls r. append_at ls (acks_late (task r)) r) (a, b) rs =
     (a @ filter (\<lambda>r. \<not> acks_late (task r)) rs, b @ filter (\<lambda>r. acks_late (task r)) rs)"
  by (induction rs arbitrary: a b) (simp_all add: append_at_def)

lemma acks_late_lists_filter:
  "acks_late_lists rs =
     (filter (\<lambda>r. \<not> acks_late (task r)) rs, filter (\<lambda>r. acks_late (task r)) rs)"
  by (simp add: acks_late_lists_def acks_late_lists_gen)

lemma filters_empty: "filter P rs = [] \<Longrightarrow> filter (\<lambda>r. \<not> P r) rs = [] \<Longrightarrow> rs = []"
  by (induction rs) (auto split: if_splits)

lemma flush_unfold:
  "flush w rs =
     (if rs = [] then (Some AssertionError, w)
      else case from_requests rs of
        Inl e \<Rightarrow> (Some e, w)
      | Inr ss \<Rightarrow>
          apply_async w
            \<lparr> sub_requests = ss,
              accept_callback = on_accepted (filter (\<lambda>r. \<not> acks_late (task r)) rs),
              callback = (if filter (\<lambda>r. acks_late (task r)) rs \<noteq> []
                          then on_return (filter (\<lambda>r. acks_late (task r)) rs) else noop) \<rparr>)"
  using filters_empty [of "\<lambda>r. acks_late (task r)" rs]
  by (auto simp: flush_def acks_late_lists_filter Let_def split: sum.splits)

lemma apply_async_raised: "fst (apply_async w sub) = Some e \<Longrightarrow> snd (apply_async w sub) = w"
  by (auto simp: apply_async_def split: option.splits pool.splits)

lemma apply_async_returned:
  "fst (apply_async w sub) = None \<Longrightarrow>
     snd (apply_async w sub) = w\<lparr>submitted := submitted w @ [sub]\<rparr>"
  by (auto simp: apply_async_def split: option.splits pool.splits)

lemma flush_raised: "fst (flush w rs) = Some e \<Longrightarrow> snd (flush w rs) = w"
  by (auto simp: flush_unfold apply_async_raised split: if_splits sum.splits)

lemma flush_returned:
  assumes "fst (flush w rs) = None"
  shows "rs \<noteq> [] \<and> (\<exists>ss. from_requests rs = Inr ss \<and>
     snd (flush w rs) = w\<lparr>submitted := submitted w @
       [\<lparr> sub_requests = ss,
          accept_callback = on_accepted (filter (\<lambda>r. \<not> acks_late (task r)) rs),
          callback = (if filter (\<lambda>r. acks_late (task r)) rs \<noteq> []
                      then on_return (filter (\<lambda>r. acks_late (task r)) rs) else noop) \<rparr>]\<rparr>)"
  using assms
  by (auto simp: flush_unfold apply_async_returned split: if_splits sum.splits)

lemma flush_world:
  "snd (flush w rs) = w \<or> (\<exists>sub. snd (flush w rs) = w\<lparr>submitted := submitted w @ [sub]\<rparr>)"
proof (cases "fst (flush w rs)")
  case None
  from flush_returned [OF this] show ?thesis by blast
next
  case (Some e)
  from flush_raised [OF this] show ?thesis by simp
qed

lemma flush_keeps:
  "buffer (snd (flush w rs)) = buffer w"
  "tref (snd (flush w rs)) = tref w"
  "timer_entries (snd (flush w rs)) = timer_entries w"
  "next_entry (snd (flush w rs)) = next_entry w"
  "count_iter (snd (flush w rs)) = count_iter w"
  "flush_every (snd (flush w rs)) = flush_every w"
  "flush_interval (snd (flush w rs)) = flush_interval w"
  "pool (snd (flush w rs)) = pool w"
  "acked (snd (flush w rs)) = acked w"
  "debug_log (snd (flush w rs)) = debug_log w"
  using flush_world [of w rs] by auto

section \<open>What \<^verbatim>\<open>_do_flush\<close> and the handler compute\<close>

lemma do_flush_empty:
  "buffer w = [] \<Longrightarrow>
     do_flush w =
       (None,
        w\<lparr>debug_log := debug_log w @ [Wake_up_to_flush_buffer, Canceling_timer],
          timer_entries := (case tref w of None \<Rightarrow> timer_entries w
                            | Some h \<Rightarrow> filter (\<lambda>e. fst e \<noteq> h) (timer_entries w)),
          tref := None\<rparr>)"
  by (simp add: do_flush_def qsize_def debug_def cancel_if_idle_def cancel_def Let_def
      split: option.splits)

lemma do_flush_nonempty:
  "buffer w \<noteq> [] \<Longrightarrow>
     do_flush w =
       flush (w\<lparr>buffer := [],
               debug_log := debug_log w @ [Wake_up_to_flush_buffer, Buffer_complete (length (buffer w))]\<rparr>)
         (buffer w)"
  by (simp add: do_flush_def qsize_def debug_def cancel_if_idle_def consume_queue_all Let_def
      split: prod.splits option.splits)

lemma do_flush_keeps:
  "count_iter (snd (do_flush w)) = count_iter w"
  "flush_every (snd (do_flush w)) = flush_every w"
  "flush_interval (snd (do_flush w)) = flush_interval w"
  "pool (snd (do_flush w)) = pool w"
  "acked (snd (do_flush w)) = acked w"
  "next_entry (snd (do_flush w)) = next_entry w"
  by (cases "buffer w = []"; simp add: do_flush_empty do_flush_nonempty flush_keeps)+

lemma do_flush_drains: "buffer (snd (do_flush w)) = []"
  by (cases "buffer w = []") (simp_all add: do_flush_empty do_flush_nonempty flush_keeps)

lemma do_flush_log:
  "debug_log (snd (do_flush w)) =
     debug_log w @ (if buffer w = [] then [Wake_up_to_flush_buffer, Canceling_timer]
                    else [Wake_up_to_flush_buffer, Buffer_complete (length (buffer w))])"
  by (cases "buffer w = []") (simp_all add: do_flush_empty do_flush_nonempty flush_keeps)

lemma do_flush_timer_nonempty:
  "buffer w \<noteq> [] \<Longrightarrow>
     tref (snd (do_flush w)) = tref w \<and> timer_entries (snd (do_flush w)) = timer_entries w"
  by (simp add: do_flush_nonempty flush_keeps)

text \<open>A call whose request cannot be constructed changes nothing.\<close>

lemma handler_raises:
  "raises msg = Some e \<Longrightarrow> task_message_handler raises t w msg = (Some e, w)"
  by (simp add: task_message_handler_def)

text \<open>The state in which the handler takes the next count: the request is in the buffer
  and a timer handle is held.\<close>

lemma handler_unfold:
  "raises msg = None \<Longrightarrow>
   task_message_handler raises t w msg =
     (let w3 = (if tref w = None
                then w\<lparr>buffer := buffer w @ [Req t msg],
                       timer_entries := timer_entries w @ [(next_entry w, flush_interval w)],
                       next_entry := Suc (next_entry w),
                       tref := Some (next_entry w),
                       count_iter := count_iter w + 1\<rparr>
                else w\<lparr>buffer := buffer w @ [Req t msg], count_iter := count_iter w + 1\<rparr>)
      in if flush_every w = 0 then (Some ZeroDivisionError, w3)
         else if count_iter w mod flush_every w = 0 then do_flush w3
         else (None, w3))"
  by (simp add: task_message_handler_def put_def call_repeatedly_def Let_def)

lemma handler_keeps:
  "count_iter (snd (task_message_handler raises t w msg)) =
     count_iter w + (if raises msg = None then 1 else 0)"
  "flush_every (snd (task_message_handler raises t w msg)) = flush_every w"
  "flush_interval (snd (task_message_handler raises t w msg)) = flush_interval w"
  "pool (snd (task_message_handler raises t w msg)) = pool w"
  "acked (snd (task_message_handler raises t w msg)) = acked w"
  by (cases "raises msg"; simp add: handler_raises handler_unfold Let_def do_flush_keeps)+

lemma handler_buffer:
  "raises msg = None \<Longrightarrow>
   buffer (snd (task_message_handler raises t w msg)) =
     (if flush_every w \<noteq> 0 \<and> count_iter w mod flush_every w = 0 then []
      else buffer w @ [Req t msg])"
  by (simp add: handler_unfold Let_def do_flush_drains)

lemma handler_log:
  "raises msg = None \<Longrightarrow>
   debug_log (snd (task_message_handler raises t w msg)) =
     debug_log w @
       (if flush_every w \<noteq> 0 \<and> count_iter w mod flush_every w = 0
        then [Wake_up_to_flush_buffer, Buffer_complete (length (buffer w) + 1)] else [])"
  by (simp add: handler_unfold Let_def do_flush_log)

lemma handler_arms:
  "raises msg = None \<Longrightarrow> tref (snd (task_message_handler raises t w msg)) \<noteq> None"
  by (auto simp: handler_unfold Let_def do_flush_timer_nonempty)

lemma handler_tref:
  "raises msg = None \<Longrightarrow>
   tref (snd (task_message_handler raises t w msg)) =
     Some (case tref w of None \<Rightarrow> next_entry w | Some h \<Rightarrow> h)"
  by (cases "tref w") (simp_all add: handler_unfold Let_def do_flush_timer_nonempty)

text \<open>What \<^verbatim>\<open>flush\<close> returns and submits depends on the pool and on the submissions
  so far, and on nothing else of the world.\<close>

lemma flush_frame:
  "pool w1 = pool w2 \<Longrightarrow> submitted w1 = submitted w2 \<Longrightarrow>
     fst (flush w1 rs) = fst (flush w2 rs)
     \<and> submitted (snd (flush w1 rs)) = submitted (snd (flush w2 rs))"
  by (simp add: flush_unfold apply_async_def split: sum.splits option.splits pool.splits)

lemma do_flush_outcome:
  assumes "buffer w \<noteq> []"
  shows "fst (do_flush w) = fst (flush w (buffer w))
       \<and> submitted (snd (do_flush w)) = submitted (snd (flush w (buffer w)))"
proof -
  let ?w = "w\<lparr>buffer := [], debug_log := debug_log w @
      [Wake_up_to_flush_buffer, Buffer_complete (length (buffer w))]\<rparr>"
  have "pool ?w = pool w" and "submitted ?w = submitted w" by simp_all
  from flush_frame [OF this, of "buffer w"] show ?thesis
    by (simp only: do_flush_nonempty [OF assms])
qed

lemma handler_flushes:
  assumes "raises msg = None" and "flush_every w \<noteq> 0"
    and "count_iter w mod flush_every w = 0"
  shows "fst (task_message_handler raises t w msg) = fst (flush w (buffer w @ [Req t msg]))
       \<and> submitted (snd (task_message_handler raises t w msg)) =
           submitted (snd (flush w (buffer w @ [Req t msg])))"
proof -
  let ?w3 = "(if tref w = None
                then w\<lparr>buffer := buffer w @ [Req t msg],
                       timer_entries := timer_entries w @ [(next_entry w, flush_interval w)],
                       next_entry := Suc (next_entry w),
                       tref := Some (next_entry w),
                       count_iter := count_iter w + 1\<rparr>
                else w\<lparr>buffer := buffer w @ [Req t msg], count_iter := count_iter w + 1\<rparr>)"
  have h: "task_message_handler raises t w msg = do_flush ?w3"
    using assms by (simp add: handler_unfold Let_def)
  have b: "buffer ?w3 = buffer w @ [Req t msg]" by simp
  then have ne: "buffer ?w3 \<noteq> []" by simp
  have "pool ?w3 = pool w" and "submitted ?w3 = submitted w" by simp_all
  from flush_frame [OF this, of "buffer w @ [Req t msg]"] do_flush_outcome [OF ne]
  show ?thesis unfolding h b by simp
qed

lemma handler_quiet:
  assumes "raises msg = None" and "flush_every w \<noteq> 0"
    and "count_iter w mod flush_every w \<noteq> 0"
  shows "fst (task_message_handler raises t w msg) = None
       \<and> submitted (snd (task_message_handler raises t w msg)) = submitted w"
  using assms by (simp add: handler_unfold Let_def)

section \<open>Histories\<close>

lemma run_snoc: "replay c t w (evs @ [e]) = snd (step c t (replay c t w evs) e)"
  by (induction evs arbitrary: w) simp_all

lemma counted_calls_Nil: "counted_calls c [] = 0"
  by (simp add: counted_calls_def)

lemma counted_calls_snoc:
  "counted_calls c (evs @ [e]) = counted_calls c evs + (if constructs c e then 1 else 0)"
  by (simp add: counted_calls_def)

lemma step_flush_every: "flush_every (snd (step c t w e)) = flush_every w"
  by (cases e) (simp_all add: handler_keeps do_flush_keeps)

lemma step_count:
  "count_iter (snd (step c t w e)) = count_iter w + (if constructs c e then 1 else 0)"
  by (cases e) (simp_all add: handler_keeps do_flush_keeps)

lemma run_flush_every: "flush_every (replay c t w evs) = flush_every w"
  by (induction evs rule: rev_induct) (simp_all add: run_snoc step_flush_every)

lemma run_count: "count_iter (replay c t w evs) = count_iter w + int (counted_calls c evs)"
  by (induction evs rule: rev_induct)
     (simp_all add: run_snoc step_count counted_calls_snoc counted_calls_Nil)

lemma step_armed_or_drained:
  assumes "tref w \<noteq> None \<or> buffer w = []"
  shows "tref (snd (step c t w e)) \<noteq> None \<or> buffer (snd (step c t w e)) = []"
proof (cases e)
  case (Ingress msg)
  show ?thesis
  proof (cases "c msg")
    case None
    then show ?thesis by (simp add: Ingress handler_arms)
  next
    case (Some x)
    with assms show ?thesis by (simp add: Ingress handler_raises)
  qed
next
  case Flush_attempt
  then show ?thesis by (simp add: do_flush_drains)
qed

lemma run_armed_or_drained:
  assumes "tref w \<noteq> None \<or> buffer w = []"
  shows "tref (replay c t w evs) \<noteq> None \<or> buffer (replay c t w evs) = []"
proof (induction evs rule: rev_induct)
  case Nil
  from assms show ?case by simp
next
  case (snoc e evs)
  from step_armed_or_drained [OF snoc] show ?case by (simp only: run_snoc)
qed

lemma filter_only_entry: "map fst es = [h] \<Longrightarrow> filter (\<lambda>e. fst e \<noteq> h) es = []"
  by (cases es) auto

lemma do_flush_one_entry: "one_entry w \<Longrightarrow> one_entry (snd (do_flush w))"
proof (cases "buffer w = []")
  case True
  assume "one_entry w"
  then show ?thesis
    by (cases "tref w") (simp_all add: one_entry_def do_flush_empty True filter_only_entry)
next
  case False
  assume "one_entry w"
  then show ?thesis
    by (simp add: one_entry_def do_flush_timer_nonempty False)
qed

lemma armed_world_one_entry:
  "one_entry w \<Longrightarrow> tref w = None \<Longrightarrow>
     one_entry (w\<lparr>buffer := b, timer_entries := timer_entries w @ [(next_entry w, i)],
                  next_entry := n, tref := Some (next_entry w), count_iter := c\<rparr>)"
  by (simp add: one_entry_def)

lemma pushed_world_one_entry:
  "one_entry w \<Longrightarrow> one_entry (w\<lparr>buffer := b, count_iter := c\<rparr>)"
  by (simp add: one_entry_def)

lemma handler_one_entry:
  assumes "one_entry w"
  shows "one_entry (snd (task_message_handler raises t w msg))"
proof (cases "raises msg")
  case (Some e)
  with assms show ?thesis by (simp add: handler_raises)
next
  case None
  show ?thesis
  proof (cases "tref w = None")
    case True
    with assms None show ?thesis
      by (simp add: handler_unfold Let_def do_flush_one_entry armed_world_one_entry)
  next
    case False
    then obtain h where "tref w = Some h" by blast
    with assms None show ?thesis
      by (simp add: handler_unfold Let_def do_flush_one_entry pushed_world_one_entry)
  qed
qed

lemma run_one_entry: "one_entry w \<Longrightarrow> one_entry (replay c t w evs)"
proof (induction evs rule: rev_induct)
  case Nil
  then show ?case by simp
next
  case (snoc e evs)
  then show ?case
    by (cases e) (simp_all add: run_snoc do_flush_one_entry handler_one_entry)
qed

lemma step_same_task:
  assumes "task ` set (buffer w) \<subseteq> {t}"
  shows "task ` set (buffer (snd (step c t w e))) \<subseteq> {t}"
proof (cases e)
  case (Ingress msg)
  have req: "task (Req t msg) = t" by (simp add: Req_def)
  show ?thesis
  proof (cases "c msg")
    case None
    with assms req show ?thesis by (simp add: Ingress handler_buffer)
  next
    case (Some x)
    with assms show ?thesis by (simp add: Ingress handler_raises)
  qed
next
  case Flush_attempt
  then show ?thesis by (simp add: do_flush_drains)
qed

lemma run_same_task:
  "task ` set (buffer w) \<subseteq> {t} \<Longrightarrow> task ` set (buffer (replay c t w evs)) \<subseteq> {t}"
proof (induction evs rule: rev_induct)
  case Nil
  then show ?case by simp
next
  case (snoc e evs)
  then have "task ` set (buffer (replay c t w evs)) \<subseteq> {t}" by blast
  then show ?case unfolding run_snoc by (rule step_same_task)
qed

lemma init_facts:
  "buffer (Strategy (Batches_init every interval) p) = []"
  "tref (Strategy (Batches_init every interval) p) = None"
  "timer_entries (Strategy (Batches_init every interval) p) = []"
  "count_iter (Strategy (Batches_init every interval) p) = 1"
  "flush_every (Strategy (Batches_init every interval) p) = every"
  "flush_interval (Strategy (Batches_init every interval) p) = interval"
  "pool (Strategy (Batches_init every interval) p) = Some p"
  "submitted (Strategy (Batches_init every interval) p) = []"
  "acked (Strategy (Batches_init every interval) p) = []"
  "debug_log (Strategy (Batches_init every interval) p) = []"
  "next_entry (Strategy (Batches_init every interval) p) = 0"
  by (simp_all add: Strategy_def Batches_init_def)

lemma init_one_entry: "one_entry (Strategy (Batches_init every interval) p)"
  by (simp add: one_entry_def init_facts)

lemma acked_foldl: "acked (foldl acknowledge a rs) = acked a @ rs"
  by (induction rs arbitrary: a) (simp_all add: acknowledge_def)

lemma acked_call:
  "acked (call (on_accepted rs) a) = acked a @ rs"
  "acked (call (on_return rs) a) = acked a @ rs"
  "acked (call noop a) = acked a"
  by (simp_all add: acked_foldl)

section \<open>Evaluating the sample data\<close>

lemma from_request_sample:
  "from_request (Req t (sample_message i n)) =
     Inr \<lparr> id_f = PyStr i, name = PyStr ''t.integration.tasks.add'', args = PyTuple [PyInt n],
           kwargs = PyDict [], delivery_info = PyDict [(PyStr ''exchange'', PyStr ''celery'')],
           hostname = PyStr ''worker1'', ignore_result = PyBool True, reply_to = PyNone,
           correlation_id = PyStr i \<rparr>"
  by (simp add: from_request_def Req_def sample_message_def attr_def unpack3_def
      getattr_default_def SimpleRequest_init_def)

lemma from_request_malformed:
  "from_request (Req t (malformed_message i n)) = Inl (AttributeError ''hostname'')"
  by (simp add: from_request_def Req_def malformed_message_def sample_message_def attr_def
      unpack3_def getattr_default_def)

lemma task_Req: "task (Req t m) = t"
  by (simp add: Req_def)

lemma sample_world_facts:
  "pool (sample_world every) = Some Running"
  "submitted (sample_world every) = []"
  "acked (sample_world every) = []"
  "buffer (sample_world every) = []"
  "tref (sample_world every) = None"
  "timer_entries (sample_world every) = []"
  "next_entry (sample_world every) = 0"
  "count_iter (sample_world every) = 1"
  "flush_every (sample_world every) = every"
  "flush_interval (sample_world every) = 30"
  "debug_log (sample_world every) = []"
  by (simp_all add: sample_world_def init_facts)

lemma flush_sample_batch_returns: "fst (flush (sample_world every) sample_batch) = None"
  by (simp add: flush_unfold sample_batch_def from_request_sample apply_async_def
      sample_world_facts)

lemma flush_running_submitted:
  "pool w = Some Running \<Longrightarrow> from_requests rs = Inr ss \<Longrightarrow> rs \<noteq> [] \<Longrightarrow>
     fst (flush w rs) = None"
  by (simp add: flush_unfold apply_async_def)

section \<open>Acknowledgment by partition\<close>

lemma flush_last_submission:
  assumes "fst (flush w rs) = None"
  shows "accept_callback (last (submitted (snd (flush w rs)))) =
           on_accepted (filter (\<lambda>r. \<not> acks_late (task r)) rs)"
    and "callback (last (submitted (snd (flush w rs)))) =
           (if filter (\<lambda>r. acks_late (task r)) rs \<noteq> []
            then on_return (filter (\<lambda>r. acks_late (task r)) rs) else noop)"
    and "submitted (snd (flush w rs)) = submitted w @ [last (submitted (snd (flush w rs)))]"
proof -
  from flush_returned [OF assms] obtain ss where
    w': "snd (flush w rs) = w\<lparr>submitted := submitted w @
       [\<lparr> sub_requests = ss,
          accept_callback = on_accepted (filter (\<lambda>r. \<not> acks_late (task r)) rs),
          callback = (if filter (\<lambda>r. acks_late (task r)) rs \<noteq> []
                      then on_return (filter (\<lambda>r. acks_late (task r)) rs) else noop) \<rparr>]\<rparr>"
    by blast
  show "accept_callback (last (submitted (snd (flush w rs)))) =
           on_accepted (filter (\<lambda>r. \<not> acks_late (task r)) rs)"
    by (simp add: w')
  show "callback (last (submitted (snd (flush w rs)))) =
           (if filter (\<lambda>r. acks_late (task r)) rs \<noteq> []
            then on_return (filter (\<lambda>r. acks_late (task r)) rs) else noop)"
    by (simp add: w')
  show "submitted (snd (flush w rs)) = submitted w @ [last (submitted (snd (flush w rs)))]"
    by (simp add: w')
qed

lemma acked_completion:
  "acked (call (if late \<noteq> [] then on_return late else noop) a) = acked a @ late"
  by (cases "late = []") (simp_all add: acked_foldl)

text \<open>
  C1. When \<^verbatim>\<open>flush\<close> has submitted a non-empty batch, the acceptance callback
  acknowledges exactly the requests whose task has \<open>acks_late\<close> false, in batch order;
  the completion callback acknowledges exactly those whose task has \<open>acks_late\<close> true,
  in batch order; after the acceptance callback and then the completion callback have run
  once each, the new acknowledgments are the requests of the batch, each as often as it
  occurs in the batch.
\<close>

theorem flush_acknowledges_by_partition:
  assumes "requests \<noteq> []" and "fst (flush w requests) = None"
  shows "submitted (snd (flush w requests)) =
           submitted w @ [last (submitted (snd (flush w requests)))]
       \<and> acked (call (accept_callback (last (submitted (snd (flush w requests))))) a) =
           acked a @ filter (\<lambda>r. \<not> acks_late (task r)) requests
       \<and> acked (call (callback (last (submitted (snd (flush w requests))))) b) =
           acked b @ filter (\<lambda>r. acks_late (task r)) requests
       \<and> mset (acked (call (callback (last (submitted (snd (flush w requests)))))
                  (call (accept_callback (last (submitted (snd (flush w requests))))) a))) =
           mset (acked a) + mset requests"
proof -
  let ?sub = "last (submitted (snd (flush w requests)))"
  let ?early = "filter (\<lambda>r. \<not> acks_late (task r)) requests"
  let ?late = "filter (\<lambda>r. acks_late (task r)) requests"
  note sub = flush_last_submission [OF assms(2)]
  have early: "acked (call (accept_callback ?sub) x) = acked x @ ?early" for x
    by (simp only: sub(1) acked_call)
  have late: "acked (call (callback ?sub) x) = acked x @ ?late" for x
    by (simp only: sub(2) acked_completion)
  have "mset ?early + mset ?late = mset requests"
    by (induction requests) simp_all
  then have "mset (acked (call (callback ?sub) (call (accept_callback ?sub) a))) =
      mset (acked a) + mset requests"
    by (simp add: early late add.assoc)
  with sub(3) early late show ?thesis by blast
qed

theorem flush_acknowledges_by_partition_witness:
  "sample_batch \<noteq> []
   \<and> fst (flush (sample_world 10) sample_batch) = None
   \<and> acked (call (accept_callback (last (submitted (snd (flush (sample_world 10) sample_batch)))))
        (sample_world 10)) =
       [Req early_task (sample_message ''a'' 1), Req early_task (sample_message ''b'' 2)]
   \<and> acked (call (callback (last (submitted (snd (flush (sample_world 10) sample_batch)))))
        (sample_world 10)) =
       [Req late_task (sample_message ''c'' 3)]"
proof -
  have ne: "sample_batch \<noteq> []" by (simp add: sample_batch_def)
  have ok: "fst (flush (sample_world 10) sample_batch) = None"
    by (rule flush_sample_batch_returns)
  from flush_acknowledges_by_partition [OF ne ok, of "sample_world 10" "sample_world 10"]
  show ?thesis using ne ok
    by (simp add: sample_batch_def task_Req early_task_def late_task_def sample_world_facts)
qed

text \<open>
  C8. When \<^verbatim>\<open>flush\<close> has submitted a batch, the completion callback it registered is
  \<open>noop\<close> if no request of the batch has a task with \<open>acks_late\<close> true, and is
  \<open>on_return\<close> over the late requests if at least one has.
\<close>

theorem completion_callback_choice:
  assumes "fst (flush w requests) = None"
  shows "callback (last (submitted (snd (flush w requests)))) =
           (if \<exists>r\<in>set requests. acks_late (task r)
            then on_return (filter (\<lambda>r. acks_late (task r)) requests) else noop)"
proof -
  have "(filter (\<lambda>r. acks_late (task r)) requests \<noteq> []) = (\<exists>r\<in>set requests. acks_late (task r))"
    by (simp add: filter_empty_conv)
  with flush_last_submission(2) [OF assms] show ?thesis by simp
qed

theorem completion_callback_choice_witness:
  "fst (flush (sample_world 10) [Req early_task (sample_message ''a'' 1)]) = None
   \<and> callback (last (submitted (snd (flush (sample_world 10) [Req early_task (sample_message ''a'' 1)])))) = noop
   \<and> fst (flush (sample_world 10) sample_batch) = None
   \<and> callback (last (submitted (snd (flush (sample_world 10) sample_batch)))) =
       on_return [Req late_task (sample_message ''c'' 3)]"
proof -
  have ok1: "fst (flush (sample_world 10) [Req early_task (sample_message ''a'' 1)]) = None"
    by (simp add: flush_unfold from_request_sample apply_async_def sample_world_facts)
  have ok2: "fst (flush (sample_world 10) sample_batch) = None"
    by (rule flush_sample_batch_returns)
  from completion_callback_choice [OF ok1] completion_callback_choice [OF ok2]
  show ?thesis using ok1 ok2
    by (simp add: sample_batch_def task_Req early_task_def late_task_def)
qed

lemma unpacking_sample: "unpacking_error (sample_message i n) = None"
  by (simp add: unpacking_error_def sample_message_def unpack3_def)

lemma unpacking_short: "unpacking_error (short_payload_message i n) = Some ValueError"
  by (simp add: unpacking_error_def short_payload_message_def unpack3_def)

lemma handler_short:
  "task_message_handler unpacking_error t w (short_payload_message i n) = (Some ValueError, w)"
  by (rule handler_raises [where raises = unpacking_error, OF unpacking_short])

section \<open>One task, one partition\<close>

lemma filter_same_task:
  "task ` set rs \<subseteq> {t} \<Longrightarrow>
     filter (\<lambda>r. acks_late (task r)) rs = (if acks_late t then rs else []) \<and>
     filter (\<lambda>r. \<not> acks_late (task r)) rs = (if acks_late t then [] else rs)"
  by (induction rs) auto

text \<open>
  C10. The partition is decided by \<open>acks_late\<close> of the task of each request. Every
  request that the handler of task \<open>t\<close> has put into the buffer refers to \<open>t\<close>. When
  \<^verbatim>\<open>flush\<close> has submitted a batch whose requests all refer to \<open>t\<close>, one partition is
  the whole batch and the other is empty: with \<open>acks_late\<close> true the acceptance callback
  holds no request and the completion callback acknowledges the batch; with
  \<open>acks_late\<close> false the acceptance callback acknowledges the batch and the completion
  callback is \<open>noop\<close>.
\<close>

theorem one_task_one_partition:
  "acks_late_lists requests =
      (filter (\<lambda>r. \<not> acks_late (task r)) requests, filter (\<lambda>r. acks_late (task r)) requests)
   \<and> (\<forall>r\<in>set (buffer (replay raises t (Strategy (Batches_init every interval) p) evs)). task r = t)
   \<and> ((\<forall>r\<in>set requests. task r = t) \<longrightarrow> fst (flush w requests) = None \<longrightarrow>
        (if acks_late t
         then accept_callback (last (submitted (snd (flush w requests)))) = on_accepted []
            \<and> callback (last (submitted (snd (flush w requests)))) = on_return requests
            \<and> acked (call (callback (last (submitted (snd (flush w requests))))) a) =
                acked a @ requests
         else accept_callback (last (submitted (snd (flush w requests)))) = on_accepted requests
            \<and> callback (last (submitted (snd (flush w requests)))) = noop
            \<and> acked (call (accept_callback (last (submitted (snd (flush w requests))))) a) =
                acked a @ requests))"
proof (intro conjI impI)
  show "acks_late_lists requests =
      (filter (\<lambda>r. \<not> acks_late (task r)) requests, filter (\<lambda>r. acks_late (task r)) requests)"
    by (rule acks_late_lists_filter)
next
  have "task ` set (buffer (Strategy (Batches_init every interval) p)) \<subseteq> {t}"
    by (simp add: init_facts)
  from run_same_task [OF this]
  show "\<forall>r\<in>set (buffer (replay raises t (Strategy (Batches_init every interval) p) evs)). task r = t"
    by blast
next
  assume same: "\<forall>r\<in>set requests. task r = t" and ok: "fst (flush w requests) = None"
  from same have "task ` set requests \<subseteq> {t}" by blast
  note parts = filter_same_task [OF this]
  from flush_returned [OF ok] have ne: "requests \<noteq> []" by blast
  note sub = flush_last_submission [OF ok]
  let ?sub = "last (submitted (snd (flush w requests)))"
  show "if acks_late t
         then accept_callback ?sub = on_accepted []
            \<and> callback ?sub = on_return requests
            \<and> acked (call (callback ?sub) a) = acked a @ requests
         else accept_callback ?sub = on_accepted requests
            \<and> callback ?sub = noop
            \<and> acked (call (accept_callback ?sub) a) = acked a @ requests"
  proof (cases "acks_late t")
    case True
    with parts have "filter (\<lambda>r. acks_late (task r)) requests = requests"
      and "filter (\<lambda>r. \<not> acks_late (task r)) requests = []" by simp_all
    with sub(1,2) ne True show ?thesis by (simp add: acked_foldl)
  next
    case False
    with parts have "filter (\<lambda>r. acks_late (task r)) requests = []"
      and "filter (\<lambda>r. \<not> acks_late (task r)) requests = requests" by simp_all
    with sub(1,2) ne False show ?thesis by (simp add: acked_foldl)
  qed
qed

theorem one_task_one_partition_witness:
  "buffer (replay unpacking_error late_task (Strategy (Batches_init 10 30) Running) [Ingress (sample_message ''a'' 1)]) =
      [Req late_task (sample_message ''a'' 1)]
   \<and> task (Req late_task (sample_message ''a'' 1)) = late_task
   \<and> fst (flush (sample_world 10)
        [Req late_task (sample_message ''a'' 1), Req late_task (sample_message ''b'' 2)]) = None
   \<and> accept_callback (last (submitted (snd (flush (sample_world 10)
        [Req late_task (sample_message ''a'' 1), Req late_task (sample_message ''b'' 2)])))) =
      on_accepted []
   \<and> callback (last (submitted (snd (flush (sample_world 10)
        [Req late_task (sample_message ''a'' 1), Req late_task (sample_message ''b'' 2)])))) =
      on_return [Req late_task (sample_message ''a'' 1), Req late_task (sample_message ''b'' 2)]"
proof -
  let ?rs = "[Req late_task (sample_message ''a'' 1), Req late_task (sample_message ''b'' 2)]"
  have buf: "buffer (replay unpacking_error late_task (Strategy (Batches_init 10 30) Running)
      [Ingress (sample_message ''a'' 1)]) = [Req late_task (sample_message ''a'' 1)]"
    by (simp add: handler_buffer init_facts unpacking_sample)
  have same: "\<forall>r\<in>set ?rs. task r = late_task" by (simp add: task_Req)
  have ok: "fst (flush (sample_world 10) ?rs) = None"
    by (simp add: flush_unfold from_request_sample apply_async_def sample_world_facts)
  have late: "acks_late late_task" by (simp add: late_task_def)
  from one_task_one_partition [where requests = ?rs and t = late_task and w = "sample_world 10"]
  have "if acks_late late_task
         then accept_callback (last (submitted (snd (flush (sample_world 10) ?rs)))) = on_accepted []
            \<and> callback (last (submitted (snd (flush (sample_world 10) ?rs)))) = on_return ?rs
            \<and> acked (call (callback (last (submitted (snd (flush (sample_world 10) ?rs))))) a) =
                acked a @ ?rs
         else accept_callback (last (submitted (snd (flush (sample_world 10) ?rs)))) = on_accepted ?rs
            \<and> callback (last (submitted (snd (flush (sample_world 10) ?rs)))) = noop
            \<and> acked (call (accept_callback (last (submitted (snd (flush (sample_world 10) ?rs))))) a) =
                acked a @ ?rs" for a
    using same ok by blast
  with late buf ok show ?thesis by (simp add: task_Req)
qed

section \<open>Snapshots\<close>

text \<open>
  C6. For a request that has every attribute, with a payload of the three items
  \<open>args_v\<close>, \<open>kwargs_v\<close>, \<open>embed_v\<close>, the snapshot holds exactly the request's values:
  no default takes the place of a value that is there (\<open>ignore_result\<close> included).
\<close>

theorem from_request_copies_fields:
  assumes "req_id r = Some id_v" and "req_name r = Some name_v"
    and "req_payload r = Some payload" and "py_iter payload = Inr [args_v, kwargs_v, embed_v]"
    and "req_delivery_info r = Some info_v" and "req_hostname r = Some host_v"
    and "req_ignore_result r = Some ignore_v" and "req_reply_to r = Some reply_v"
    and "req_correlation_id r = Some corr_v"
  shows "from_request r =
     Inr \<lparr> id_f = id_v, name = name_v, args = args_v, kwargs = kwargs_v,
           delivery_info = info_v, hostname = host_v, ignore_result = ignore_v,
           reply_to = reply_v, correlation_id = corr_v \<rparr>"
  using assms
  by (simp add: from_request_def attr_def unpack3_def getattr_default_def SimpleRequest_init_def)

theorem from_request_copies_fields_witness:
  "from_request (Req early_task (sample_message ''a'' 1)) =
     Inr \<lparr> id_f = PyStr ''a'', name = PyStr ''t.integration.tasks.add'', args = PyTuple [PyInt 1],
           kwargs = PyDict [], delivery_info = PyDict [(PyStr ''exchange'', PyStr ''celery'')],
           hostname = PyStr ''worker1'', ignore_result = PyBool True, reply_to = PyNone,
           correlation_id = PyStr ''a'' \<rparr>"
  by (rule from_request_copies_fields
        [where payload = "PyTuple [PyTuple [PyInt 1], PyDict [], PyDict []]"
           and embed_v = "PyDict []"])
     (simp_all add: Req_def sample_message_def)

section \<open>A malformed request aborts the batch\<close>

lemma from_request_missing: "missing_required r \<Longrightarrow> \<exists>e. from_request r = Inl e"
  by (auto simp: from_request_def attr_def missing_required_def Let_def
      split: option.splits sum.splits prod.splits)

lemma from_requests_raises:
  "r \<in> set rs \<Longrightarrow> from_request r = Inl e \<Longrightarrow> \<exists>e'. from_requests rs = Inl e'"
  by (induction rs) (auto split: sum.splits)

lemma flush_malformed:
  assumes "r \<in> set rs" and "missing_required r"
  shows "\<exists>e. flush w rs = (Some e, w)"
proof -
  from assms(2) obtain e where "from_request r = Inl e"
    using from_request_missing by blast
  with assms(1) obtain e' where "from_requests rs = Inl e'"
    using from_requests_raises by blast
  moreover from assms(1) have "rs \<noteq> []" by auto
  ultimately show ?thesis by (simp add: flush_unfold)
qed

text \<open>
  C7. If a request of the batch, at any position, lacks a required attribute, then
  \<^verbatim>\<open>flush\<close> raises and leaves the world as it found it: the pool has received no
  submission, so no callback exists, and no request has been acknowledged. A flush
  attempt that drains such a batch from the buffer raises in the same way.
\<close>

theorem malformed_request_aborts_batch:
  assumes "r \<in> set requests" and "missing_required r"
  shows "fst (flush w requests) \<noteq> None
       \<and> snd (flush w requests) = w
       \<and> submitted (snd (flush w requests)) = submitted w
       \<and> acked (snd (flush w requests)) = acked w
       \<and> (buffer w = requests \<longrightarrow>
            fst (do_flush w) \<noteq> None
          \<and> submitted (snd (do_flush w)) = submitted w
          \<and> acked (snd (do_flush w)) = acked w)"
proof -
  from flush_malformed [OF assms] obtain e where e: "flush w requests = (Some e, w)"
    by blast
  have "fst (do_flush w) \<noteq> None \<and> submitted (snd (do_flush w)) = submitted w
      \<and> acked (snd (do_flush w)) = acked w" if b: "buffer w = requests"
  proof -
    from assms(1) b have ne: "buffer w \<noteq> []" by auto
    let ?w = "w\<lparr>buffer := [], debug_log := debug_log w @
      [Wake_up_to_flush_buffer, Buffer_complete (length (buffer w))]\<rparr>"
    from flush_malformed [OF assms, of ?w] obtain e' where "flush ?w requests = (Some e', ?w)"
      by blast
    with b ne show ?thesis by (simp add: do_flush_nonempty)
  qed
  with e show ?thesis by simp
qed

theorem malformed_request_aborts_batch_witness:
  "Req early_task (malformed_message ''b'' 2) \<in>
      set [Req early_task (sample_message ''a'' 1), Req early_task (malformed_message ''b'' 2),
           Req early_task (sample_message ''c'' 3)]
   \<and> missing_required (Req early_task (malformed_message ''b'' 2))
   \<and> fst (flush (sample_world 10)
        [Req early_task (sample_message ''a'' 1), Req early_task (malformed_message ''b'' 2),
         Req early_task (sample_message ''c'' 3)]) = Some (AttributeError ''hostname'')
   \<and> submitted (snd (flush (sample_world 10)
        [Req early_task (sample_message ''a'' 1), Req early_task (malformed_message ''b'' 2),
         Req early_task (sample_message ''c'' 3)])) = []"
proof -
  let ?rs = "[Req early_task (sample_message ''a'' 1), Req early_task (malformed_message ''b'' 2),
           Req early_task (sample_message ''c'' 3)]"
  have mem: "Req early_task (malformed_message ''b'' 2) \<in> set ?rs" by simp
  have bad: "missing_required (Req early_task (malformed_message ''b'' 2))"
    by (simp add: missing_required_def Req_def malformed_message_def)
  have raised: "fst (flush (sample_world 10) ?rs) = Some (AttributeError ''hostname'')"
    by (simp add: flush_unfold from_request_sample from_request_malformed)
  from malformed_request_aborts_batch [OF mem bad, of "sample_world 10"]
  have "submitted (snd (flush (sample_world 10) ?rs)) = submitted (sample_world 10)"
    by blast
  with mem bad raised show ?thesis by (simp add: sample_world_facts)
qed

section \<open>The count trigger\<close>

lemma reached_count:
  "count_iter (replay c t (Strategy (Batches_init every interval) p) evs) =
     int (counted_calls c evs) + 1"
  by (simp add: run_count init_facts)

lemma reached_flush_every:
  "flush_every (replay c t (Strategy (Batches_init every interval) p) evs) = every"
  by (simp add: run_flush_every init_facts)

text \<open>
  C2, as the code has it. Let \<open>flush_every\<close> be positive, let \<open>w\<close> be the state after
  any history of ingress calls and flush attempts, and count the ingress calls that
  constructed their request: the next such call has the ordinal \<open>j\<close>. If \<open>flush_every\<close>
  divides \<open>j\<close>, the call runs a flush attempt that sees the new request: the log gains
  the wake-up line and the size of a batch one longer than the buffer was, the buffer is
  drained, and the call raises and submits what \<^verbatim>\<open>flush\<close> raises and submits on the
  old buffer with the new request. If not, the call runs no flush attempt: the log gains
  nothing, the request stays in the buffer, nothing is submitted and the call returns.
  A call that raises before the push leaves the state, counter included, as it was.
\<close>

theorem count_trigger_exact:
  fixes raises t every interval p evs msg
  defines "w \<equiv> replay raises t (Strategy (Batches_init every interval) p) evs"
    and "j \<equiv> int (counted_calls raises evs) + 1"
  assumes "0 < every"
  shows "(raises msg = None \<longrightarrow>
            debug_log (snd (task_message_handler raises t w msg)) =
              debug_log w @
              (if every dvd j
               then [Wake_up_to_flush_buffer, Buffer_complete (length (buffer w) + 1)] else [])
          \<and> buffer (snd (task_message_handler raises t w msg)) =
              (if every dvd j then [] else buffer w @ [Req t msg])
          \<and> fst (task_message_handler raises t w msg) =
              (if every dvd j then fst (flush w (buffer w @ [Req t msg])) else None)
          \<and> submitted (snd (task_message_handler raises t w msg)) =
              (if every dvd j then submitted (snd (flush w (buffer w @ [Req t msg])))
               else submitted w))
       \<and> (\<forall>e. raises msg = Some e \<longrightarrow> task_message_handler raises t w msg = (Some e, w))"
proof -
  have every: "flush_every w = every" and count: "count_iter w = j"
    by (simp_all add: w_def j_def reached_count reached_flush_every)
  have trig: "(flush_every w \<noteq> 0 \<and> count_iter w mod flush_every w = 0) = (every dvd j)"
    using assms(3) by (simp add: every count dvd_eq_mod_eq_0)
  have counted: "debug_log (snd (task_message_handler raises t w msg)) =
              debug_log w @
              (if every dvd j
               then [Wake_up_to_flush_buffer, Buffer_complete (length (buffer w) + 1)] else [])
          \<and> buffer (snd (task_message_handler raises t w msg)) =
              (if every dvd j then [] else buffer w @ [Req t msg])
          \<and> fst (task_message_handler raises t w msg) =
              (if every dvd j then fst (flush w (buffer w @ [Req t msg])) else None)
          \<and> submitted (snd (task_message_handler raises t w msg)) =
              (if every dvd j then submitted (snd (flush w (buffer w @ [Req t msg])))
               else submitted w)"
    if ok: "raises msg = None"
  proof (cases "every dvd j")
    case True
    with trig have z: "flush_every w \<noteq> 0" and m: "count_iter w mod flush_every w = 0"
      by simp_all
    from handler_flushes [where raises = raises, OF ok z m, of t]
      handler_log [where raises = raises, OF ok, of t w]
      handler_buffer [where raises = raises, OF ok, of t w] z m True
    show ?thesis by simp
  next
    case False
    with trig assms(3) every have z: "flush_every w \<noteq> 0"
      and m: "count_iter w mod flush_every w \<noteq> 0"
      by simp_all
    from handler_quiet [where raises = raises, OF ok z m, of t]
      handler_log [where raises = raises, OF ok, of t w]
      handler_buffer [where raises = raises, OF ok, of t w] z m False
    show ?thesis by simp
  qed
  have "task_message_handler raises t w msg = (Some e, w)" if "raises msg = Some e" for e
    using that by (rule handler_raises)
  with counted show ?thesis by blast
qed

theorem count_trigger_exact_witness:
  "(0::int) < 2
   \<and> unpacking_error (sample_message ''c'' 3) = None
   \<and> counted_calls unpacking_error
        [Ingress (short_payload_message ''a'' 1), Ingress (sample_message ''b'' 2)] = 1
   \<and> debug_log (snd (task_message_handler unpacking_error early_task
        (replay unpacking_error early_task (Strategy (Batches_init 2 30) Running)
          [Ingress (short_payload_message ''a'' 1), Ingress (sample_message ''b'' 2)])
        (sample_message ''c'' 3))) = [Wake_up_to_flush_buffer, Buffer_complete 2]
   \<and> buffer (snd (task_message_handler unpacking_error early_task
        (replay unpacking_error early_task (Strategy (Batches_init 2 30) Running)
          [Ingress (short_payload_message ''a'' 1), Ingress (sample_message ''b'' 2)])
        (sample_message ''c'' 3))) = []
   \<and> fst (task_message_handler unpacking_error early_task
        (replay unpacking_error early_task (Strategy (Batches_init 2 30) Running)
          [Ingress (short_payload_message ''a'' 1), Ingress (sample_message ''b'' 2)])
        (sample_message ''c'' 3)) = None
   \<and> length (submitted (snd (task_message_handler unpacking_error early_task
        (replay unpacking_error early_task (Strategy (Batches_init 2 30) Running)
          [Ingress (short_payload_message ''a'' 1), Ingress (sample_message ''b'' 2)])
        (sample_message ''c'' 3)))) = 1"
proof -
  let ?init = "Strategy (Batches_init 2 30) Running"
  let ?evs = "[Ingress (short_payload_message ''a'' 1), Ingress (sample_message ''b'' 2)]"
  let ?w = "replay unpacking_error early_task ?init ?evs"
  let ?rs = "[Req early_task (sample_message ''b'' 2), Req early_task (sample_message ''c'' 3)]"
  have pos: "(0::int) < 2" by simp
  have ok: "unpacking_error (sample_message ''c'' 3) = None" by (rule unpacking_sample)
  have n: "counted_calls unpacking_error ?evs = 1"
    by (simp add: counted_calls_def unpacking_sample unpacking_short)
  have w: "?w = snd (task_message_handler unpacking_error early_task ?init (sample_message ''b'' 2))"
    by (simp add: handler_short)
  have z: "flush_every ?init \<noteq> 0" and m: "count_iter ?init mod flush_every ?init \<noteq> 0"
    by (simp_all add: init_facts)
  have wb: "buffer ?w = [Req early_task (sample_message ''b'' 2)]"
    unfolding w by (simp add: handler_buffer unpacking_sample init_facts)
  have wl: "debug_log ?w = []"
    unfolding w by (simp add: handler_log unpacking_sample init_facts)
  have wp: "pool ?w = Some Running"
    unfolding w by (simp add: handler_keeps init_facts)
  have ws: "submitted ?w = []"
    unfolding w
    using handler_quiet [where raises = unpacking_error, OF unpacking_sample z m]
    by (simp add: init_facts)
  have f: "fst (flush ?w ?rs) = None"
    by (rule flush_running_submitted [OF wp]) (simp_all add: from_request_sample)
  have s: "length (submitted (snd (flush ?w ?rs))) = 1"
  proof -
    from flush_last_submission(3) [OF f]
    have "length (submitted (snd (flush ?w ?rs))) =
        length (submitted ?w @ [last (submitted (snd (flush ?w ?rs)))])"
      by (rule arg_cong)
    also have "\<dots> = 1" by (simp only: ws) simp
    finally show ?thesis .
  qed
  from count_trigger_exact
    [where raises = unpacking_error and t = early_task and interval = 30 and p = Running
       and evs = ?evs and msg = "sample_message ''c'' 3", OF pos, THEN conjunct1, rule_format, OF ok]
  show ?thesis using pos ok n f s
    by (simp only: n wb wl) simp
qed

text \<open>
  Ordinals over all ingress calls do not give the trigger: with \<open>flush_every = 2\<close>,
  after a first call that raised while constructing its request, the second call runs
  no flush attempt and leaves its request in the buffer.
\<close>

theorem second_call_after_failed_call_does_not_flush:
  "(2::int) dvd int (ingress_count [Ingress (short_payload_message ''a'' 1)]) + 1
   \<and> debug_log (snd (task_message_handler unpacking_error early_task
        (replay unpacking_error early_task (Strategy (Batches_init 2 30) Running)
          [Ingress (short_payload_message ''a'' 1)])
        (sample_message ''b'' 2))) = []
   \<and> buffer (snd (task_message_handler unpacking_error early_task
        (replay unpacking_error early_task (Strategy (Batches_init 2 30) Running)
          [Ingress (short_payload_message ''a'' 1)])
        (sample_message ''b'' 2))) = [Req early_task (sample_message ''b'' 2)]"
  by (simp add: ingress_count_def handler_short handler_log handler_buffer
      unpacking_sample init_facts)

section \<open>The timer handle and the buffer\<close>

text \<open>
  C3, as the code has it. In every state reached by ingress calls and flush attempts, a
  buffer that is not empty has an armed timer handle.
\<close>

theorem nonempty_buffer_has_timer:
  "buffer (replay raises t (Strategy (Batches_init every interval) p) evs) \<noteq> [] \<longrightarrow>
     tref (replay raises t (Strategy (Batches_init every interval) p) evs) \<noteq> None"
proof -
  have "tref (Strategy (Batches_init every interval) p) \<noteq> None
      \<or> buffer (Strategy (Batches_init every interval) p) = []"
    by (simp add: init_facts)
  from run_armed_or_drained [OF this, of raises t evs] show ?thesis by blast
qed

theorem nonempty_buffer_has_timer_witness:
  "buffer (replay unpacking_error early_task (Strategy (Batches_init 10 30) Running)
      [Ingress (sample_message ''a'' 1)]) \<noteq> []
   \<and> tref (replay unpacking_error early_task (Strategy (Batches_init 10 30) Running)
      [Ingress (sample_message ''a'' 1)]) \<noteq> None"
proof -
  have "buffer (replay unpacking_error early_task (Strategy (Batches_init 10 30) Running)
      [Ingress (sample_message ''a'' 1)]) \<noteq> []"
    by (simp add: handler_buffer init_facts unpacking_sample)
  with nonempty_buffer_has_timer
    [of unpacking_error early_task 10 30 Running "[Ingress (sample_message ''a'' 1)]"]
  show ?thesis by blast
qed

text \<open>
  The converse fails: the first request arms the timer, a flush attempt then drains
  the buffer and leaves the handle armed.
\<close>

theorem timer_armed_with_empty_buffer:
  "\<not> ((tref (replay unpacking_error early_task (Strategy (Batches_init 10 30) Running)
           [Ingress (sample_message ''a'' 1), Flush_attempt]) \<noteq> None) =
       (buffer (replay unpacking_error early_task (Strategy (Batches_init 10 30) Running)
           [Ingress (sample_message ''a'' 1), Flush_attempt]) \<noteq> []))"
proof -
  let ?w1 = "snd (task_message_handler unpacking_error early_task
      (Strategy (Batches_init 10 30) Running) (sample_message ''a'' 1))"
  have b1: "buffer ?w1 \<noteq> []" by (simp add: handler_buffer init_facts unpacking_sample)
  have t1: "tref ?w1 = Some 0" by (simp add: handler_tref init_facts unpacking_sample)
  from do_flush_timer_nonempty [OF b1] t1 have "tref (snd (do_flush ?w1)) = Some 0" by simp
  then show ?thesis by (simp add: do_flush_drains)
qed

section \<open>A flush attempt: idle clean-up or dispatch\<close>

lemma reached_one_entry: "one_entry (replay c t (Strategy (Batches_init every interval) p) evs)"
  by (rule run_one_entry) (rule init_one_entry)

lemma idle_has_no_entry: "one_entry w \<Longrightarrow> tref w = None \<Longrightarrow> timer_entries w = []"
  by (simp add: one_entry_def)

lemma do_flush_empty_outcome:
  "buffer w = [] \<Longrightarrow>
     fst (do_flush w) = None \<and> submitted (snd (do_flush w)) = submitted w
     \<and> tref (snd (do_flush w)) = None"
  by (simp add: do_flush_empty)

text \<open>
  C5. Let \<open>w\<close> be a state reached by ingress calls and flush attempts. If the buffer of
  \<open>w\<close> is empty, \<^verbatim>\<open>_do_flush\<close> returns without a submission, holds no handle
  afterwards and leaves the timer service without an entry, so that nothing can fire;
  the next ingress call that constructs its request, and so brings an item, registers a
  fresh entry and holds its handle, while a call that raises before the push leaves the
  timer as it is, without a handle and without an entry. If the buffer is not empty,
  \<^verbatim>\<open>_do_flush\<close> is \<^verbatim>\<open>flush\<close> on the drained buffer, with the two log lines
  written and the buffer emptied, and the handle, which is armed, and the timer entries
  are left as they were.
\<close>

theorem flush_attempt_idle_or_dispatch:
  "(buffer (replay raises t (Strategy (Batches_init every interval) p) evs) = [] \<longrightarrow>
      fst (do_flush (replay raises t (Strategy (Batches_init every interval) p) evs)) = None
    \<and> submitted (snd (do_flush (replay raises t (Strategy (Batches_init every interval) p) evs))) =
        submitted (replay raises t (Strategy (Batches_init every interval) p) evs)
    \<and> tref (snd (do_flush (replay raises t (Strategy (Batches_init every interval) p) evs))) = None
    \<and> timer_entries (snd (do_flush (replay raises t (Strategy (Batches_init every interval) p) evs))) = []
    \<and> (raises msg = None \<longrightarrow>
          tref (snd (task_message_handler raises t (snd (do_flush (replay raises t (Strategy (Batches_init every interval) p) evs))) msg)) =
            Some (next_entry (replay raises t (Strategy (Batches_init every interval) p) evs))
        \<and> map fst (timer_entries (snd (task_message_handler raises t (snd (do_flush (replay raises t (Strategy (Batches_init every interval) p) evs))) msg))) =
            [next_entry (replay raises t (Strategy (Batches_init every interval) p) evs)])
    \<and> (raises msg \<noteq> None \<longrightarrow>
          tref (snd (task_message_handler raises t (snd (do_flush (replay raises t (Strategy (Batches_init every interval) p) evs))) msg)) = None
        \<and> timer_entries (snd (task_message_handler raises t (snd (do_flush (replay raises t (Strategy (Batches_init every interval) p) evs))) msg)) = []))
   \<and> (buffer (replay raises t (Strategy (Batches_init every interval) p) evs) \<noteq> [] \<longrightarrow>
      do_flush (replay raises t (Strategy (Batches_init every interval) p) evs) =
        flush ((replay raises t (Strategy (Batches_init every interval) p) evs)
                 \<lparr>buffer := [],
                  debug_log := debug_log (replay raises t (Strategy (Batches_init every interval) p) evs) @
                    [Wake_up_to_flush_buffer,
                     Buffer_complete
                       (length (buffer (replay raises t (Strategy (Batches_init every interval) p) evs)))]\<rparr>)
          (buffer (replay raises t (Strategy (Batches_init every interval) p) evs))
    \<and> tref (replay raises t (Strategy (Batches_init every interval) p) evs) \<noteq> None
    \<and> tref (snd (do_flush (replay raises t (Strategy (Batches_init every interval) p) evs))) =
        tref (replay raises t (Strategy (Batches_init every interval) p) evs)
    \<and> timer_entries (snd (do_flush (replay raises t (Strategy (Batches_init every interval) p) evs))) =
        timer_entries (replay raises t (Strategy (Batches_init every interval) p) evs))"
proof -
  let ?w = "replay raises t (Strategy (Batches_init every interval) p) evs"
  let ?w' = "snd (do_flush ?w)"
  let ?w'' = "snd (task_message_handler raises t ?w' msg)"
  have inv: "one_entry ?w" by (rule reached_one_entry)
  have idle: "fst (do_flush ?w) = None \<and> submitted ?w' = submitted ?w \<and> tref ?w' = None
      \<and> timer_entries ?w' = []
      \<and> (raises msg = None \<longrightarrow>
            tref ?w'' = Some (next_entry ?w) \<and> map fst (timer_entries ?w'') = [next_entry ?w])
      \<and> (raises msg \<noteq> None \<longrightarrow> tref ?w'' = None \<and> timer_entries ?w'' = [])"
    if empty: "buffer ?w = []"
  proof -
    note out = do_flush_empty_outcome [OF empty]
    then have none: "tref ?w' = None" by blast
    have inv': "one_entry ?w'" using inv by (rule do_flush_one_entry)
    then have entries: "timer_entries ?w' = []" using none by (rule idle_has_no_entry)
    have rearm: "tref ?w'' = Some (next_entry ?w) \<and> map fst (timer_entries ?w'') = [next_entry ?w]"
      if ok: "raises msg = None"
    proof -
      have armed: "tref ?w'' = Some (next_entry ?w)"
        using ok by (simp add: handler_tref none do_flush_keeps)
      have "one_entry ?w''" using inv' by (rule handler_one_entry)
      with armed show ?thesis by (simp add: one_entry_def)
    qed
    have still: "tref ?w'' = None \<and> timer_entries ?w'' = []" if bad: "raises msg \<noteq> None"
    proof -
      from bad obtain e where "raises msg = Some e" by blast
      then have "?w'' = ?w'" by (simp add: handler_raises)
      with none entries show ?thesis by simp
    qed
    from out entries rearm still show ?thesis by blast
  qed
  have busy: "do_flush ?w =
      flush (?w\<lparr>buffer := [], debug_log := debug_log ?w @
        [Wake_up_to_flush_buffer, Buffer_complete (length (buffer ?w))]\<rparr>) (buffer ?w)
      \<and> tref ?w \<noteq> None \<and> tref ?w' = tref ?w \<and> timer_entries ?w' = timer_entries ?w"
    if full: "buffer ?w \<noteq> []"
  proof -
    have "tref (Strategy (Batches_init every interval) p) \<noteq> None
        \<or> buffer (Strategy (Batches_init every interval) p) = []"
      by (simp add: init_facts)
    from run_armed_or_drained [OF this, of raises t evs] full have "tref ?w \<noteq> None" by blast
    with do_flush_nonempty [OF full] do_flush_timer_nonempty [OF full] show ?thesis by blast
  qed
  from idle busy show ?thesis by blast
qed

theorem flush_attempt_idle_or_dispatch_witness:
  "buffer (replay unpacking_error early_task (Strategy (Batches_init 10 30) Running)
      [Ingress (sample_message ''a'' 1), Flush_attempt]) = []
   \<and> tref (replay unpacking_error early_task (Strategy (Batches_init 10 30) Running)
      [Ingress (sample_message ''a'' 1), Flush_attempt]) = Some 0
   \<and> tref (snd (do_flush (replay unpacking_error early_task (Strategy (Batches_init 10 30) Running)
      [Ingress (sample_message ''a'' 1), Flush_attempt]))) = None
   \<and> timer_entries (snd (do_flush (replay unpacking_error early_task
      (Strategy (Batches_init 10 30) Running)
      [Ingress (sample_message ''a'' 1), Flush_attempt]))) = []
   \<and> unpacking_error (sample_message ''b'' 2) = None
   \<and> tref (snd (task_message_handler unpacking_error early_task
        (snd (do_flush (replay unpacking_error early_task (Strategy (Batches_init 10 30) Running)
          [Ingress (sample_message ''a'' 1), Flush_attempt])))
        (sample_message ''b'' 2))) = Some 1
   \<and> buffer (replay unpacking_error early_task (Strategy (Batches_init 10 30) Running)
      [Ingress (sample_message ''a'' 1)]) = [Req early_task (sample_message ''a'' 1)]
   \<and> tref (snd (do_flush (replay unpacking_error early_task (Strategy (Batches_init 10 30) Running)
      [Ingress (sample_message ''a'' 1)]))) = Some 0"
proof -
  let ?w0 = "Strategy (Batches_init 10 30) Running"
  let ?w1 = "snd (task_message_handler unpacking_error early_task ?w0 (sample_message ''a'' 1))"
  have r1: "replay unpacking_error early_task ?w0 [Ingress (sample_message ''a'' 1)] = ?w1"
    by simp
  have r2: "replay unpacking_error early_task ?w0 [Ingress (sample_message ''a'' 1), Flush_attempt] =
      snd (do_flush ?w1)" by simp
  have ok: "unpacking_error (sample_message ''b'' 2) = None" by (rule unpacking_sample)
  have b1: "buffer ?w1 = [Req early_task (sample_message ''a'' 1)]"
    by (simp add: handler_buffer init_facts unpacking_sample)
  have t1: "tref ?w1 = Some 0" by (simp add: handler_tref init_facts unpacking_sample)
  have n1: "next_entry ?w1 = 1"
    by (simp add: handler_unfold unpacking_sample init_facts Let_def)
  have b2: "buffer (snd (do_flush ?w1)) = []" by (rule do_flush_drains)
  have t2: "tref (snd (do_flush ?w1)) = Some 0"
    using do_flush_timer_nonempty [of ?w1] b1 t1 by simp
  have n2: "next_entry (snd (do_flush ?w1)) = 1" by (simp add: do_flush_keeps n1)
  note idle = flush_attempt_idle_or_dispatch
    [where raises = unpacking_error and t = early_task and every = 10 and interval = 30
       and p = Running and evs = "[Ingress (sample_message ''a'' 1), Flush_attempt]"
       and msg = "sample_message ''b'' 2", THEN conjunct1, rule_format]
  from idle b2 ok n2 have
    "tref (snd (do_flush (snd (do_flush ?w1)))) = None
     \<and> timer_entries (snd (do_flush (snd (do_flush ?w1)))) = []
     \<and> tref (snd (task_message_handler unpacking_error early_task
          (snd (do_flush (snd (do_flush ?w1)))) (sample_message ''b'' 2))) = Some 1"
    unfolding r2 by simp
  with b1 b2 t1 t2 ok show ?thesis unfolding r1 r2 by blast
qed

section \<open>The eager path and the assertion of \<^verbatim>\<open>flush\<close>\<close>













end
